theory Spec2Isabelle
  imports Complex_Main
begin

section \<open>EMG support functions: pulse location, MEP detection and recruitment curve\<close>

text \<open>
  A shallow embedding of \<^verbatim>\<open>emg_support_functions.py\<close>. A single-trial recording is a
  one-dimensional array of samples, addressed by position, as a \<^verbatim>\<open>numpy\<close> array is and
  as a data-frame column is under integer slices; samples are real numbers, compared
  and subtracted exactly. The samples of the code are 64-bit floating-point values:
  where a property depends on the rounding of an addition, the addition is
  \<open>float64_add\<close> below.
  A data frame is the list of its columns, in column order. The plotting calls draw on
  a canvas and return nothing that the functions below use; they are left out, and so
  is the diagnostic line that \<^verbatim>\<open>find_mep_timing\<close> writes to standard output.
\<close>

type_synonym signal = "real list"

datatype py_error = IndexError | TypeError | ValueError | ZeroDivisionError

subsection \<open>The peak-finding primitive\<close>

text \<open>
  Modelled from the spec: the peak detector of section 4.1 is the library routine
  \<^verbatim>\<open>scipy.signal.find_peaks(x, prominence=p)\<close>, which is not part of the repository.
  It returns, by increasing index, the local maxima of \<open>x\<close> whose prominence is at least
  \<open>p\<close>. The definitions below follow the routine's three steps:
  \<^item> \<open>local_maxima_1d\<close>: a sample is a local maximum when its left neighbour is strictly
    smaller and the next sample that differs from it is strictly smaller; the first and
    the last sample never are; of a flat top the middle index (rounded down) is reported;
  \<^item> \<open>peak_prominence\<close>: from the peak, walk left and then right while the samples do not
    exceed the peak, keeping the lowest sample met on each side; the prominence is the
    peak's height above the higher of the two;
  \<^item> \<open>find_peaks\<close>: keep the maxima whose prominence reaches the threshold.
\<close>

function look_ahead :: "signal \<Rightarrow> nat \<Rightarrow> nat \<Rightarrow> nat" where
  "look_ahead x i i_ahead =
     (if i_ahead < length x - 1 \<and> x ! i_ahead = x ! i
      then look_ahead x i (i_ahead + 1)
      else i_ahead)"
  by pat_completeness auto
termination
  by (relation "measure (\<lambda>(x, i, i_ahead). length x - i_ahead)") auto

declare look_ahead.simps [simp del]

function local_maxima_from :: "signal \<Rightarrow> nat \<Rightarrow> nat list" where
  "local_maxima_from x i =
     (if i < length x - 1 then
        (if x ! (i - 1) < x ! i then
           (let i_ahead = look_ahead x i (i + 1) in
            if x ! i_ahead < x ! i
            then ((i + (i_ahead - 1)) div 2) # local_maxima_from x (i_ahead + 1)
            else local_maxima_from x (i + 1))
         else local_maxima_from x (i + 1))
      else [])"
  by pat_completeness auto
termination
proof (relation "measure (\<lambda>(x, i). length x - i)")
  have ge: "j \<le> look_ahead x i j" for x i j
  proof (induction x i j rule: look_ahead.induct)
    case (1 x i i_ahead)
    show ?case
    proof (cases "i_ahead < length x - 1 \<and> x ! i_ahead = x ! i")
      case True
      with 1 have "i_ahead + 1 \<le> look_ahead x i (i_ahead + 1)" by blast
      moreover from True
      have "look_ahead x i i_ahead = look_ahead x i (i_ahead + 1)"
        by (subst look_ahead.simps) simp
      ultimately show ?thesis by simp
    next
      case False
      then have "look_ahead x i i_ahead = i_ahead"
        by (subst look_ahead.simps) auto
      then show ?thesis by simp
    qed
  qed
  fix x :: signal and i i_ahead :: nat
  assume "i < length x - 1" and "i_ahead = look_ahead x i (i + 1)"
  with ge [of "i + 1" x i]
  show "((x, i_ahead + 1), (x, i)) \<in> measure (\<lambda>(x, i). length x - i)"
    by simp
qed auto

declare local_maxima_from.simps [simp del]

definition local_maxima_1d :: "signal \<Rightarrow> nat list" where
  "local_maxima_1d x = local_maxima_from x 1"

fun left_min_scan :: "signal \<Rightarrow> nat \<Rightarrow> nat \<Rightarrow> real \<Rightarrow> real" where
  "left_min_scan x peak 0 left_min =
     (if x ! 0 \<le> x ! peak
      then (if x ! 0 < left_min then x ! 0 else left_min)
      else left_min)"
| "left_min_scan x peak (Suc i) left_min =
     (if x ! Suc i \<le> x ! peak
      then left_min_scan x peak i (if x ! Suc i < left_min then x ! Suc i else left_min)
      else left_min)"

function right_min_scan :: "signal \<Rightarrow> nat \<Rightarrow> nat \<Rightarrow> real \<Rightarrow> real" where
  "right_min_scan x peak i right_min =
     (if i < length x \<and> x ! i \<le> x ! peak
      then right_min_scan x peak (i + 1) (if x ! i < right_min then x ! i else right_min)
      else right_min)"
  by pat_completeness auto
termination
  by (relation "measure (\<lambda>(x, peak, i, right_min). length x - i)") auto

declare right_min_scan.simps [simp del]

definition peak_prominence :: "signal \<Rightarrow> nat \<Rightarrow> real" where
  "peak_prominence x peak =
     (let left_min = left_min_scan x peak peak (x ! peak);
          right_min = right_min_scan x peak peak (x ! peak)
      in x ! peak - max left_min right_min)"

definition find_peaks :: "signal \<Rightarrow> real \<Rightarrow> nat list" where
  "find_peaks x prominence =
     filter (\<lambda>peak. prominence \<le> peak_prominence x peak) (local_maxima_1d x)"

subsection \<open>Array primitives\<close>

text \<open>Indexing with a non-negative constant raises \<open>IndexError\<close> out of range.\<close>

definition getitem :: "'a list \<Rightarrow> nat \<Rightarrow> py_error + 'a" where
  "getitem xs i = (if i < length xs then Inr (xs ! i) else Inl IndexError)"

text \<open>
  A slice bound below zero counts from the end of the array; every bound is then
  clamped to the array. A slice whose start is not before its stop is empty.
\<close>

definition slice_bound :: "nat \<Rightarrow> int \<Rightarrow> nat" where
  "slice_bound n k = (if k < 0 then nat (max 0 (int n + k)) else min n (nat k))"

definition py_slice :: "'a list \<Rightarrow> int \<Rightarrow> int \<Rightarrow> 'a list" where
  "py_slice xs start stop =
     drop (slice_bound (length xs) start) (take (slice_bound (length xs) stop) xs)"

text \<open>
  The reductions \<^verbatim>\<open>np.max\<close> and \<^verbatim>\<open>np.min\<close> raise \<open>ValueError\<close> on an empty array. (On an
  empty data-frame column they give a not-a-number instead; the results below on data
  frames are stated for datasets in which no window is empty.)
\<close>

definition np_max :: "real list \<Rightarrow> py_error + real" where
  "np_max xs = (if xs = [] then Inl ValueError else Inr (Max (set xs)))"

definition np_min :: "real list \<Rightarrow> py_error + real" where
  "np_min xs = (if xs = [] then Inl ValueError else Inr (Min (set xs)))"

text \<open>Division of the running sum by the counter; both are the integer 0 when the
  counter is 0, and the division raises.\<close>

definition py_div :: "real \<Rightarrow> nat \<Rightarrow> py_error + real" where
  "py_div sum_meps counter =
     (if counter = 0 then Inl ZeroDivisionError else Inr (sum_meps / real counter))"

subsection \<open>Single-trial functions\<close>

definition find_tms_pulse :: "signal \<Rightarrow> py_error + nat" where
  "find_tms_pulse emg_signal =
     (let peaks = find_peaks emg_signal (5 / 100);
          peaks = (if length peaks = 0
                   then find_peaks (map uminus emg_signal) (5 / 100)
                   else peaks)
      in getitem peaks 0)"

definition is_mep :: "signal \<Rightarrow> bool" where
  "is_mep emg_signal =
     (let peaks = find_peaks emg_signal (5 / 100)
      in if length peaks > 1 then True else False)"

text \<open>The empty list that the source returns when there is no MEP is \<open>None\<close>.\<close>

definition find_mep_timing :: "signal \<Rightarrow> py_error + nat option" where
  "find_mep_timing emg_signal =
     (if \<not> is_mep emg_signal then Inr None
      else (let peaks = find_peaks emg_signal (5 / 100)
            in case getitem peaks 1 of Inl e \<Rightarrow> Inl e | Inr p \<Rightarrow> Inr (Some p)))"

text \<open>Subtracting 50 from the empty list raises \<open>TypeError\<close>.\<close>

definition get_mep_size :: "signal \<Rightarrow> py_error + real" where
  "get_mep_size emg_signal =
     (case find_mep_timing emg_signal of
        Inl e \<Rightarrow> Inl e
      | Inr None \<Rightarrow> Inl TypeError
      | Inr (Some peak_emg) \<Rightarrow>
          (let window = (int peak_emg - 50, int peak_emg + 50);
               samples = py_slice emg_signal (fst window) (snd window)
           in case np_max samples of
                Inl e \<Rightarrow> Inl e
              | Inr hi \<Rightarrow> (case np_min samples of
                            Inl e \<Rightarrow> Inl e
                          | Inr lo \<Rightarrow> Inr (hi - lo))))"

subsection \<open>The recruitment curve\<close>

fun mep_sizes_loop :: "signal list \<Rightarrow> real option list \<Rightarrow> py_error + real option list" where
  "mep_sizes_loop [] mep_sizes = Inr mep_sizes"
| "mep_sizes_loop (col # cols) mep_sizes =
     (if is_mep col then
        (case get_mep_size col of
           Inl e \<Rightarrow> Inl e
         | Inr v \<Rightarrow> mep_sizes_loop cols (mep_sizes @ [Some v]))
      else mep_sizes_loop cols (mep_sizes @ [None]))"

text \<open>One pass of \<^verbatim>\<open>for i in range(..)\<close> over the trials at \<open>location + i\<close>, adding the
  present sizes to the running sum and counting them.\<close>

fun sum_loop ::
  "real option list \<Rightarrow> nat \<Rightarrow> nat list \<Rightarrow> real \<times> nat \<Rightarrow> py_error + real \<times> nat" where
  "sum_loop mep_sizes location [] (sum_meps, counter) = Inr (sum_meps, counter)"
| "sum_loop mep_sizes location (i # rest) (sum_meps, counter) =
     (case getitem mep_sizes (location + i) of
        Inl e \<Rightarrow> Inl e
      | Inr None \<Rightarrow> sum_loop mep_sizes location rest (sum_meps, counter)
      | Inr (Some v) \<Rightarrow> sum_loop mep_sizes location rest (sum_meps + v, counter + 1))"

text \<open>The loop over the intensities 1 to 5. The running sum and the counter are set
  to 0 before this loop and are carried from one intensity to the next.\<close>

fun intensity_loop ::
  "real option list \<Rightarrow> nat list \<Rightarrow> real \<times> nat \<Rightarrow> real option list
     \<Rightarrow> py_error + real option list" where
  "intensity_loop mep_sizes [] acc recruitment_curve = Inr recruitment_curve"
| "intensity_loop mep_sizes (tms_intensity # rest) acc recruitment_curve =
     (let location = 6 + tms_intensity * 6 in
      case sum_loop mep_sizes location [0..<6] acc of
        Inl e \<Rightarrow> Inl e
      | Inr (sum_meps, counter) \<Rightarrow>
          (case py_div sum_meps counter of
             Inl e \<Rightarrow> Inl e
           | Inr m \<Rightarrow>
               intensity_loop mep_sizes rest (sum_meps, counter)
                 (recruitment_curve[tms_intensity := Some m])))"

definition plot_recruitment_curve :: "signal list \<Rightarrow> py_error + real option list" where
  "plot_recruitment_curve df =
     (let recruitment_curve = replicate 6 None in
      case mep_sizes_loop df [] of
        Inl e \<Rightarrow> Inl e
      | Inr mep_sizes \<Rightarrow>
          (case sum_loop mep_sizes 0 [0..<12] (0, 0) of
             Inl e \<Rightarrow> Inl e
           | Inr (sum_meps, counter) \<Rightarrow>
               (case py_div sum_meps counter of
                  Inl e \<Rightarrow> Inl e
                | Inr m \<Rightarrow>
                    intensity_loop mep_sizes [1..<6] (0, 0)
                      (recruitment_curve[0 := Some m]))))"

subsection \<open>Adding a constant to an array\<close>

text \<open>
  Modelled from the spec: the offset \<^verbatim>\<open>signal + c\<close> of the testable properties is the
  element-wise addition of the array library on 64-bit floating-point samples, which is
  not part of the repository. Its result is the exact sum rounded to the nearest
  representable value, ties to the even one: \<open>float64_exponent\<close> finds the binary exponent
  of a positive magnitude (not below \<open>-1022\<close>, the exponent of the smallest normal
  value), \<open>float64_ulp\<close> is the spacing of the representable values at that exponent, and
  \<open>float64_round\<close> rounds to a multiple of it. A sum beyond \<open>float64_max\<close> is infinite in
  the code and has no counterpart here; \<open>float64_exact_add\<close> says that a sum is within
  range and is not changed by the rounding.
\<close>

function float64_scale_up :: "real \<Rightarrow> int \<Rightarrow> int" where
  "float64_scale_up a e = (if 2 \<le> a then float64_scale_up (a / 2) (e + 1) else e)"
  by pat_completeness auto
termination
proof (relation "measure (\<lambda>(a, e). nat \<lceil>a\<rceil>)")
  fix a :: real and e :: int
  assume "2 \<le> a"
  then have "a / 2 \<le> a - 1" by simp
  then have "\<lceil>a / 2\<rceil> \<le> \<lceil>a - 1\<rceil>" by (rule ceiling_mono)
  with \<open>2 \<le> a\<close> show "((a / 2, e + 1), (a, e)) \<in> measure (\<lambda>(a, e). nat \<lceil>a\<rceil>)"
    by simp
qed simp

declare float64_scale_up.simps [simp del]

function float64_scale_down :: "real \<Rightarrow> int \<Rightarrow> int" where
  "float64_scale_down a e =
     (if a < 1 \<and> - 1022 < e then float64_scale_down (a * 2) (e - 1) else e)"
  by pat_completeness auto
termination
  by (relation "measure (\<lambda>(a, e). nat (e + 1022))") auto

declare float64_scale_down.simps [simp del]

definition float64_exponent :: "real \<Rightarrow> int" where
  "float64_exponent a = (if 1 \<le> a then float64_scale_up a 0 else float64_scale_down a 0)"

definition float64_ulp :: "real \<Rightarrow> real" where
  "float64_ulp a =
     (let k = float64_exponent a - 52
      in if 0 \<le> k then 2 ^ nat k else 1 / 2 ^ nat (- k))"

definition round_half_even :: "real \<Rightarrow> int" where
  "round_half_even q =
     (let f = \<lfloor>q\<rfloor>; d = q - of_int f
      in if d < 1 / 2 then f else if 1 / 2 < d then f + 1 else if even f then f else f + 1)"

definition float64_round :: "real \<Rightarrow> real" where
  "float64_round x =
     (if x = 0 then 0
      else let u = float64_ulp \<bar>x\<bar> in of_int (round_half_even (x / u)) * u)"

definition float64_add :: "real \<Rightarrow> real \<Rightarrow> real" where
  "float64_add a b = float64_round (a + b)"

definition float64_max :: real where
  "float64_max = (2 ^ 53 - 1) * 2 ^ 971"

definition float64_exact_add :: "real \<Rightarrow> real \<Rightarrow> bool" where
  "float64_exact_add a b \<longleftrightarrow> \<bar>a + b\<bar> \<le> float64_max \<and> float64_round (a + b) = a + b"

subsection \<open>Notions used to state the properties\<close>

text \<open>
  A plateau from \<open>l\<close> to \<open>r\<close> that rises on its left and falls on its right, with its
  middle \<open>p\<close>: what every reported maximum is.
\<close>

definition plateau_peak :: "signal \<Rightarrow> nat \<Rightarrow> nat \<Rightarrow> nat \<Rightarrow> bool" where
  "plateau_peak x l r p \<longleftrightarrow>
     1 \<le> l \<and> l \<le> r \<and> r + 1 < length x \<and> x ! (l - 1) < x ! l \<and> x ! (r + 1) < x ! l \<and>
     (\<forall>k. l \<le> k \<and> k \<le> r \<longrightarrow> x ! k = x ! l) \<and> p = (l + r) div 2"

text \<open>
  A single qualifying positive deflection at \<open>a\<close>: the samples do not fall before \<open>a\<close>
  and do not rise after it, the sample at \<open>a\<close> is strictly above both neighbours, and
  it stands at least 0.05 above the higher end of the signal. A negative deflection is
  a positive deflection of the negated signal.
\<close>

definition single_deflection :: "signal \<Rightarrow> nat \<Rightarrow> bool" where
  "single_deflection x a \<longleftrightarrow>
     1 \<le> a \<and> a + 1 < length x \<and>
     (\<forall>k\<in>{0..<a}. x ! k \<le> x ! (k + 1)) \<and> x ! (a - 1) < x ! a \<and>
     (\<forall>k\<in>{a..<length x - 1}. x ! (k + 1) \<le> x ! k) \<and> x ! (a + 1) < x ! a \<and>
     5 / 100 \<le> x ! a - max (x ! 0) (x ! (length x - 1))"

text \<open>
  The present sizes among the per-trial results at the positions from \<open>lo\<close> up to, not
  including, \<open>hi\<close>, and the arithmetic mean of a list of sizes.
\<close>

definition present_sizes :: "real option list \<Rightarrow> nat \<Rightarrow> nat \<Rightarrow> real list" where
  "present_sizes ms lo hi = List.map_filter (\<lambda>v. v) (drop lo (take hi ms))"

definition mean :: "real list \<Rightarrow> real" where
  "mean vs = sum_list vs / real (length vs)"

section \<open>Properties of the peak-finding primitive\<close>

lemma look_ahead_ge: "j \<le> look_ahead x i j"
proof (induction x i j rule: look_ahead.induct)
  case (1 x i i_ahead)
  show ?case
  proof (cases "i_ahead < length x - 1 \<and> x ! i_ahead = x ! i")
    case True
    with 1 have "i_ahead + 1 \<le> look_ahead x i (i_ahead + 1)" by blast
    moreover from True
    have "look_ahead x i i_ahead = look_ahead x i (i_ahead + 1)"
      by (subst look_ahead.simps) simp
    ultimately show ?thesis by simp
  next
    case False
    then have "look_ahead x i i_ahead = i_ahead"
      by (subst look_ahead.simps) auto
    then show ?thesis by simp
  qed
qed

lemma look_ahead_le: "j \<le> length x - 1 \<Longrightarrow> look_ahead x i j \<le> length x - 1"
proof (induction x i j rule: look_ahead.induct)
  case (1 x i i_ahead)
  show ?case
  proof (cases "i_ahead < length x - 1 \<and> x ! i_ahead = x ! i")
    case True
    with 1 have "look_ahead x i (i_ahead + 1) \<le> length x - 1" by simp
    moreover from True
    have "look_ahead x i i_ahead = look_ahead x i (i_ahead + 1)"
      by (subst look_ahead.simps) simp
    ultimately show ?thesis by simp
  next
    case False
    then have "look_ahead x i i_ahead = i_ahead"
      by (subst look_ahead.simps) auto
    with 1 show ?thesis by simp
  qed
qed

lemma look_ahead_plateau:
  "j \<le> k \<Longrightarrow> k < look_ahead x i j \<Longrightarrow> x ! k = x ! i"
proof (induction x i j rule: look_ahead.induct)
  case (1 x i i_ahead)
  show ?case
  proof (cases "i_ahead < length x - 1 \<and> x ! i_ahead = x ! i")
    case True
    then have eq: "look_ahead x i i_ahead = look_ahead x i (i_ahead + 1)"
      by (subst look_ahead.simps) simp
    show ?thesis
    proof (cases "k = i_ahead")
      case True
      with \<open>i_ahead < length x - 1 \<and> x ! i_ahead = x ! i\<close> show ?thesis by simp
    next
      case False
      with 1 True eq show ?thesis by simp
    qed
  next
    case False
    then have "look_ahead x i i_ahead = i_ahead"
      by (subst look_ahead.simps) auto
    with 1 show ?thesis by simp
  qed
qed

lemma look_ahead_stop:
  "look_ahead x i j < length x - 1 \<Longrightarrow> x ! (look_ahead x i j) \<noteq> x ! i"
proof (induction x i j rule: look_ahead.induct)
  case (1 x i i_ahead)
  show ?case
  proof (cases "i_ahead < length x - 1 \<and> x ! i_ahead = x ! i")
    case True
    then have eq: "look_ahead x i i_ahead = look_ahead x i (i_ahead + 1)"
      by (subst look_ahead.simps) simp
    with 1 True show ?thesis by simp
  next
    case False
    then have "look_ahead x i i_ahead = i_ahead"
      by (subst look_ahead.simps) auto
    with 1 False show ?thesis by auto
  qed
qed

lemma local_maxima_from_unfold_peak:
  assumes "i < length x - 1" "x ! (i - 1) < x ! i" "x ! (look_ahead x i (i + 1)) < x ! i"
  shows "local_maxima_from x i =
           ((i + (look_ahead x i (i + 1) - 1)) div 2) # local_maxima_from x (look_ahead x i (i + 1) + 1)"
  using assms by (subst local_maxima_from.simps) (simp add: Let_def)

lemma local_maxima_from_unfold_skip:
  assumes "i < length x - 1" "\<not> (x ! (i - 1) < x ! i \<and> x ! (look_ahead x i (i + 1)) < x ! i)"
  shows "local_maxima_from x i = local_maxima_from x (i + 1)"
  using assms by (subst local_maxima_from.simps) (auto simp add: Let_def)

lemma local_maxima_from_unfold_end:
  assumes "\<not> i < length x - 1"
  shows "local_maxima_from x i = []"
  using assms by (subst local_maxima_from.simps) simp

lemma local_maxima_from_sound:
  "1 \<le> i \<Longrightarrow> p \<in> set (local_maxima_from x i) \<Longrightarrow> \<exists>l r. i \<le> l \<and> plateau_peak x l r p"
proof (induction x i rule: local_maxima_from.induct)
  case (1 x i)
  show ?case
  proof (cases "i < length x - 1")
    case False
    with 1 show ?thesis by (simp add: local_maxima_from_unfold_end)
  next
    case inr: True
    let ?j = "look_ahead x i (i + 1)"
    have jge: "i + 1 \<le> ?j" by (rule look_ahead_ge)
    from inr have jle: "?j \<le> length x - 1" by (intro look_ahead_le) simp
    show ?thesis
    proof (cases "x ! (i - 1) < x ! i \<and> x ! ?j < x ! i")
      case True
      then have unf: "local_maxima_from x i = ((i + (?j - 1)) div 2) # local_maxima_from x (?j + 1)"
        using inr by (simp add: local_maxima_from_unfold_peak)
      show ?thesis
      proof (cases "p = (i + (?j - 1)) div 2")
        case pe: True
        have "plateau_peak x i (?j - 1) p"
          unfolding plateau_peak_def
        proof (intro conjI allI impI)
          show "1 \<le> i" by fact
          show "i \<le> ?j - 1" using jge by simp
          show "?j - 1 + 1 < length x" using jge jle inr by simp
          show "x ! (i - 1) < x ! i" using True by simp
          show "x ! (?j - 1 + 1) < x ! i" using True jge by simp
          show "p = (i + (?j - 1)) div 2" by fact
        next
          fix k assume k: "i \<le> k \<and> k \<le> ?j - 1"
          show "x ! k = x ! i"
          proof (cases "k = i")
            case True then show ?thesis by simp
          next
            case False
            with k jge have "i + 1 \<le> k" "k < ?j" by auto
            then show ?thesis by (rule look_ahead_plateau)
          qed
        qed
        then show ?thesis by blast
      next
        case False
        with "1.prems" unf have "p \<in> set (local_maxima_from x (?j + 1))" by simp
        with "1.IH"(1) [OF inr _ refl] True obtain l r where "?j + 1 \<le> l" "plateau_peak x l r p"
          by auto
        with jge have "i \<le> l" by simp
        with \<open>plateau_peak x l r p\<close> show ?thesis by blast
      qed
    next
      case False
      then have unf: "local_maxima_from x i = local_maxima_from x (i + 1)"
        using inr by (simp add: local_maxima_from_unfold_skip)
      with "1.prems" have pin: "p \<in> set (local_maxima_from x (i + 1))" by simp
      have "\<exists>l r. i + 1 \<le> l \<and> plateau_peak x l r p"
      proof (cases "x ! (i - 1) < x ! i")
        case True
        with False have "\<not> x ! ?j < x ! i" by simp
        with "1.IH"(2) [OF inr True refl] pin show ?thesis by simp
      next
        case False
        with "1.IH"(3) [OF inr] pin show ?thesis by simp
      qed
      then show ?thesis by (meson add_leD1)
    qed
  qed
qed

lemma plateau_peak_bounds:
  assumes "plateau_peak x l r p"
  shows "l \<le> p \<and> p \<le> r \<and> p + 1 < length x"
proof -
  from assms have "l \<le> r" "r + 1 < length x" "p = (l + r) div 2"
    unfolding plateau_peak_def by blast+
  then show ?thesis by linarith
qed

lemma local_maxima_from_lower:
  assumes "1 \<le> i" "p \<in> set (local_maxima_from x i)"
  shows "i \<le> p \<and> p + 1 < length x"
proof -
  from local_maxima_from_sound [OF assms] obtain l r where "i \<le> l" "plateau_peak x l r p"
    by blast
  with plateau_peak_bounds [of x l r p] show ?thesis by linarith
qed

lemma local_maxima_from_sorted:
  "1 \<le> i \<Longrightarrow> sorted_wrt (<) (local_maxima_from x i)"
proof (induction x i rule: local_maxima_from.induct)
  case (1 x i)
  show ?case
  proof (cases "i < length x - 1")
    case False
    then show ?thesis by (simp add: local_maxima_from_unfold_end)
  next
    case inr: True
    let ?j = "look_ahead x i (i + 1)"
    have jge: "i + 1 \<le> ?j" by (rule look_ahead_ge)
    show ?thesis
    proof (cases "x ! (i - 1) < x ! i \<and> x ! ?j < x ! i")
      case True
      then have unf: "local_maxima_from x i = ((i + (?j - 1)) div 2) # local_maxima_from x (?j + 1)"
        using inr by (simp add: local_maxima_from_unfold_peak)
      have "sorted_wrt (<) (local_maxima_from x (?j + 1))"
        using "1.IH"(1) [OF inr _ refl] True by simp
      moreover have "(i + (?j - 1)) div 2 < q" if "q \<in> set (local_maxima_from x (?j + 1))" for q
      proof -
        from that have "?j + 1 \<le> q" using local_maxima_from_lower [of "?j + 1" q x] by simp
        with jge show ?thesis by linarith
      qed
      ultimately show ?thesis using unf by simp
    next
      case False
      then have unf: "local_maxima_from x i = local_maxima_from x (i + 1)"
        using inr by (simp add: local_maxima_from_unfold_skip)
      show ?thesis
      proof (cases "x ! (i - 1) < x ! i")
        case True
        with False have "\<not> x ! ?j < x ! i" by simp
        with "1.IH"(2) [OF inr True refl] unf show ?thesis by simp
      next
        case False
        with "1.IH"(3) [OF inr] unf show ?thesis by simp
      qed
    qed
  qed
qed

lemma find_peaks_sorted: "sorted_wrt (<) (find_peaks x prominence)"
  unfolding find_peaks_def local_maxima_1d_def
  by (simp add: local_maxima_from_sorted sorted_wrt_filter)

lemma find_peaks_bounds:
  assumes "p \<in> set (find_peaks x prominence)"
  shows "1 \<le> p \<and> p + 1 < length x \<and> prominence \<le> peak_prominence x p"
proof -
  from assms have "p \<in> set (local_maxima_from x 1)" "prominence \<le> peak_prominence x p"
    unfolding find_peaks_def local_maxima_1d_def by simp_all
  with local_maxima_from_lower [of 1 p x] show ?thesis by simp
qed

lemma look_ahead_strict: "x ! j \<noteq> x ! i \<Longrightarrow> look_ahead x i j = j"
  by (subst look_ahead.simps) simp

lemma local_maxima_from_complete:
  "1 \<le> i \<Longrightarrow> i \<le> a \<Longrightarrow> a + 1 < length x \<Longrightarrow> x ! (a - 1) < x ! a \<Longrightarrow> x ! (a + 1) < x ! a
     \<Longrightarrow> a \<in> set (local_maxima_from x i)"
proof (induction x i rule: local_maxima_from.induct)
  case (1 x i)
  from "1.prems" have inr: "i < length x - 1" by simp
  let ?j = "look_ahead x i (i + 1)"
  have jge: "i + 1 \<le> ?j" by (rule look_ahead_ge)
  show ?case
  proof (cases "i = a")
    case True
    with "1.prems" have "?j = a + 1" by (simp add: look_ahead_strict)
    with True "1.prems" inr have "local_maxima_from x i = a # local_maxima_from x (a + 1 + 1)"
      by (simp add: local_maxima_from_unfold_peak)
    then show ?thesis by simp
  next
    case ne: False
    with "1.prems" have ia: "i < a" by simp
    show ?thesis
    proof (cases "x ! (i - 1) < x ! i \<and> x ! ?j < x ! i")
      case True
      then have unf: "local_maxima_from x i = ((i + (?j - 1)) div 2) # local_maxima_from x (?j + 1)"
        using inr by (simp add: local_maxima_from_unfold_peak)
      have "?j + 1 \<le> a"
      proof (rule ccontr)
        assume "\<not> ?j + 1 \<le> a"
        then have aj: "a \<le> ?j" by simp
        have prev: "x ! (a - 1) = x ! i"
        proof (cases "a - 1 = i")
          case True then show ?thesis by simp
        next
          case False
          with ia aj have "i + 1 \<le> a - 1" "a - 1 < ?j" by auto
          then show ?thesis by (rule look_ahead_plateau)
        qed
        show False
        proof (cases "a = ?j")
          case True
          with \<open>x ! (i - 1) < x ! i \<and> x ! ?j < x ! i\<close> prev "1.prems" show False by simp
        next
          case False
          with aj ia have "i + 1 \<le> a" "a < ?j" by auto
          then have "x ! a = x ! i" by (rule look_ahead_plateau)
          with prev "1.prems" show False by simp
        qed
      qed
      with "1.IH"(1) [OF inr _ refl] True "1.prems" have "a \<in> set (local_maxima_from x (?j + 1))"
        by simp
      with unf show ?thesis by simp
    next
      case False
      then have unf: "local_maxima_from x i = local_maxima_from x (i + 1)"
        using inr by (simp add: local_maxima_from_unfold_skip)
      from ia have ia': "i + 1 \<le> a" by simp
      have "a \<in> set (local_maxima_from x (i + 1))"
      proof (cases "x ! (i - 1) < x ! i")
        case True
        with False have "\<not> x ! ?j < x ! i" by simp
        with "1.IH"(2) [OF inr True refl] ia' "1.prems" show ?thesis by simp
      next
        case False
        with "1.IH"(3) [OF inr] ia' "1.prems" show ?thesis by simp
      qed
      with unf show ?thesis by simp
    qed
  qed
qed

lemma left_min_scan_monotone:
  "\<forall>k\<le>i. x ! k \<le> x ! peak \<Longrightarrow> \<forall>k<i. x ! k \<le> x ! (k + 1) \<Longrightarrow> x ! i \<le> lm
     \<Longrightarrow> left_min_scan x peak i lm = x ! 0"
proof (induction i arbitrary: lm)
  case 0
  then show ?case by auto
next
  case (Suc i)
  have "left_min_scan x peak (Suc i) lm = left_min_scan x peak i (x ! Suc i)"
    using Suc.prems by auto
  also have "\<dots> = x ! 0"
    using Suc.prems by (intro Suc.IH) auto
  finally show ?case .
qed

lemma right_min_scan_monotone:
  "i < length x \<Longrightarrow> \<forall>k. i \<le> k \<and> k < length x \<longrightarrow> x ! k \<le> x ! peak
     \<Longrightarrow> \<forall>k. i \<le> k \<and> k + 1 < length x \<longrightarrow> x ! (k + 1) \<le> x ! k \<Longrightarrow> x ! i \<le> rm
     \<Longrightarrow> right_min_scan x peak i rm = x ! (length x - 1)"
proof (induction x peak i rm rule: right_min_scan.induct)
  case (1 x peak i rm)
  from "1.prems" have c: "i < length x \<and> x ! i \<le> x ! peak" by simp
  then have unf: "right_min_scan x peak i rm = right_min_scan x peak (i + 1) (x ! i)"
    using "1.prems"(4) by (subst right_min_scan.simps) auto
  show ?case
  proof (cases "i + 1 < length x")
    case True
    have "right_min_scan x peak (i + 1) (if x ! i < rm then x ! i else rm) = x ! (length x - 1)"
      using "1.prems" True by (intro "1.IH" c) auto
    moreover have "(if x ! i < rm then x ! i else rm) = x ! i" using "1.prems"(4) by auto
    ultimately show ?thesis using unf by simp
  next
    case False
    with c have "i = length x - 1" by linarith
    moreover from False have "right_min_scan x peak (i + 1) (x ! i) = x ! i"
      by (subst right_min_scan.simps) simp
    ultimately show ?thesis using unf by simp
  qed
qed

lemma getitem_nth: "i < length xs \<Longrightarrow> getitem xs i = Inr (xs ! i)"
  by (simp add: getitem_def)

lemma getitem_Nil: "getitem [] i = Inl IndexError"
  by (simp add: getitem_def)

lemma plateau_peak_edges:
  "plateau_peak x l r p \<Longrightarrow>
     1 \<le> l \<and> l \<le> r \<and> r + 1 < length x \<and> x ! (l - 1) < x ! l \<and> x ! (r + 1) < x ! l"
  unfolding plateau_peak_def by blast

lemma plateau_peak_level:
  "plateau_peak x l r p \<Longrightarrow> l \<le> k \<Longrightarrow> k \<le> r \<Longrightarrow> x ! k = x ! l"
  unfolding plateau_peak_def by blast

lemma local_maxima_flat: "local_maxima_from (replicate n v) 1 = []"
proof (rule ccontr)
  assume "local_maxima_from (replicate n v) 1 \<noteq> []"
  then obtain p where p: "p \<in> set (local_maxima_from (replicate n v) 1)"
    by (meson last_in_set)
  have "\<exists>l r. 1 \<le> l \<and> plateau_peak (replicate n v) l r p"
    by (rule local_maxima_from_sound [OF _ p]) simp
  then obtain l r where pp: "plateau_peak (replicate n v) l r p" by blast
  from plateau_peak_edges [OF pp]
  have "l \<le> r" "r + 1 < length (replicate n v)"
    and lt: "replicate n v ! (l - 1) < replicate n v ! l" by blast+
  then have "l < n" "l - 1 < n" by simp_all
  with lt show False by simp
qed

lemma find_peaks_flat: "find_peaks (replicate n v) prominence = []"
  unfolding find_peaks_def local_maxima_1d_def local_maxima_flat by simp

section \<open>Claims about the single-trial functions\<close>

text \<open>
  Claim C2. \<open>is_mep\<close> holds exactly when more than one local maximum of the signal
  itself (not of its negation) has prominence at least 0.05; with fewer than two such
  peaks it is false.
\<close>

theorem is_mep_iff_second_peak:
  "(is_mep sig \<longleftrightarrow>
      1 < length (filter (\<lambda>p. 5 / 100 \<le> peak_prominence sig p) (local_maxima_1d sig)))
   \<and> (length (find_peaks sig (5 / 100)) < 2 \<longrightarrow> \<not> is_mep sig)"
  by (simp add: is_mep_def find_peaks_def Let_def)

theorem is_mep_iff_second_peak_witness:
  "length (find_peaks [0, 1, 0] (5 / 100)) < 2 \<and> \<not> is_mep [0, 1, 0]
   \<and> is_mep [0, 1, 0, 1, 0]"
proof -
  have h: "length (find_peaks [0, 1, 0] (5 / 100)) < 2" by code_simp
  have g: "1 < length (filter (\<lambda>p. 5 / 100 \<le> peak_prominence [0, 1, 0, 1, 0] p)
                         (local_maxima_1d [0, 1, 0, 1, 0]))" by code_simp
  from h g is_mep_iff_second_peak [of "[0, 1, 0]"] is_mep_iff_second_peak [of "[0, 1, 0, 1, 0]"]
  show ?thesis by blast
qed

text \<open>
  Claim C3. With at least two qualifying peaks \<open>find_mep_timing\<close> returns the index of
  the second one (position 1 of the ordered peak list); when \<open>is_mep\<close> is false it
  returns the absent value, and in neither case does it raise.
\<close>

theorem find_mep_timing_second_peak:
  "(2 \<le> length (find_peaks sig (5 / 100)) \<longrightarrow>
      is_mep sig \<and> find_mep_timing sig = Inr (Some (find_peaks sig (5 / 100) ! 1)))
   \<and> (\<not> is_mep sig \<longrightarrow> find_mep_timing sig = Inr None)"
  by (simp add: find_mep_timing_def is_mep_def Let_def getitem_def)

theorem find_mep_timing_second_peak_witness:
  "2 \<le> length (find_peaks [0, 1, 0, 1, 0] (5 / 100))
   \<and> find_mep_timing [0, 1, 0, 1, 0] = Inr (Some 3)
   \<and> \<not> is_mep [0, 1, 0] \<and> find_mep_timing [0, 1, 0] = Inr None"
proof -
  have a: "find_peaks [0, 1, 0, 1, 0] (5 / 100) = [1, 3]" by code_simp
  have b: "\<not> is_mep [0, 1, 0]" by code_simp
  from a have c: "2 \<le> length (find_peaks [0, 1, 0, 1, 0] (5 / 100))" by simp
  from find_mep_timing_second_peak [of "[0, 1, 0, 1, 0]"] c a
  have "find_mep_timing [0, 1, 0, 1, 0] = Inr (Some 3)" by simp
  moreover from find_mep_timing_second_peak [of "[0, 1, 0]"] b
  have "find_mep_timing [0, 1, 0] = Inr None" by blast
  ultimately show ?thesis using b c by blast
qed

text \<open>
  Claim C7, as stated, asks for a dedicated "no pulse detected" error. On the all-zero
  signal neither polarity has a peak and the function's result is the \<open>IndexError\<close>
  of reading position 0 of the empty peak list.
\<close>

theorem find_tms_pulse_flat_counterexample:
  "find_peaks [0, 0, 0, 0] (5 / 100) = []
   \<and> find_peaks (map uminus [0, 0, 0, 0]) (5 / 100) = []
   \<and> find_tms_pulse [0, 0, 0, 0] = getitem (find_peaks (map uminus [0, 0, 0, 0]) (5 / 100)) 0
   \<and> find_tms_pulse [0, 0, 0, 0] = Inl IndexError"
  by code_simp

text \<open>
  Claim C7, amended. When neither the signal nor its negation has a qualifying peak,
  \<open>find_tms_pulse\<close> raises \<open>IndexError\<close>, the error of indexing the empty peak list;
  it raises no other error and raises only then; every constant signal is such a case.
\<close>

theorem find_tms_pulse_no_peak:
  "(find_peaks sig (5 / 100) = [] \<and> find_peaks (map uminus sig) (5 / 100) = []
      \<longrightarrow> find_tms_pulse sig = Inl IndexError)
   \<and> (find_tms_pulse sig = Inl e
      \<longrightarrow> e = IndexError \<and> find_peaks sig (5 / 100) = []
          \<and> find_peaks (map uminus sig) (5 / 100) = [])
   \<and> find_tms_pulse (replicate n v) = Inl IndexError"
proof (intro conjI impI)
  assume "find_peaks sig (5 / 100) = [] \<and> find_peaks (map uminus sig) (5 / 100) = []"
  then show "find_tms_pulse sig = Inl IndexError"
    by (simp add: find_tms_pulse_def getitem_def)
next
  assume a: "find_tms_pulse sig = Inl e"
  then show "e = IndexError"
    by (auto simp: find_tms_pulse_def getitem_def Let_def split: if_splits)
  from a show "find_peaks sig (5 / 100) = []"
    by (auto simp: find_tms_pulse_def getitem_def Let_def split: if_splits)
  from a show "find_peaks (map uminus sig) (5 / 100) = []"
    by (auto simp: find_tms_pulse_def getitem_def Let_def split: if_splits)
next
  show "find_tms_pulse (replicate n v) = Inl IndexError"
    by (simp add: find_tms_pulse_def getitem_def find_peaks_flat)
qed

theorem find_tms_pulse_no_peak_witness:
  "find_peaks [0, 0, 0, 0] (5 / 100) = [] \<and> find_peaks (map uminus [0, 0, 0, 0]) (5 / 100) = []
   \<and> find_tms_pulse [0, 0, 0, 0] = Inl IndexError"
proof -
  have h: "find_peaks [0, 0, 0, 0] (5 / 100) = [] \<and> find_peaks (map uminus [0, 0, 0, 0]) (5 / 100) = []"
    by code_simp
  with find_tms_pulse_no_peak [of "[0, 0, 0, 0]"] show ?thesis by blast
qed

text \<open>
  Claim C10. When \<open>is_mep\<close> holds, \<open>find_tms_pulse\<close> succeeds with the first qualifying
  peak of the signal itself, whatever the negated signal contains, and this index is
  strictly below the one \<open>find_mep_timing\<close> returns.
\<close>

theorem is_mep_pulse_before_timing:
  assumes "is_mep sig"
  shows "find_tms_pulse sig = Inr (find_peaks sig (5 / 100) ! 0)
         \<and> find_mep_timing sig = Inr (Some (find_peaks sig (5 / 100) ! 1))
         \<and> find_peaks sig (5 / 100) ! 0 < find_peaks sig (5 / 100) ! 1"
proof -
  let ?peaks = "find_peaks sig (5 / 100)"
  from assms have len: "1 < length ?peaks"
    by (simp add: is_mep_def Let_def split: if_splits)
  then have "find_tms_pulse sig = Inr (?peaks ! 0)"
    by (auto simp add: find_tms_pulse_def Let_def getitem_def)
  moreover from assms len have "find_mep_timing sig = Inr (Some (?peaks ! 1))"
    by (simp add: find_mep_timing_def Let_def getitem_def)
  moreover have "?peaks ! 0 < ?peaks ! 1"
    using find_peaks_sorted [of sig "5 / 100"] len
    by (simp add: sorted_wrt_iff_nth_less)
  ultimately show ?thesis by blast
qed

theorem is_mep_pulse_before_timing_witness:
  "is_mep [0, 1, 0, 1, 0] \<and> find_tms_pulse [0, 1, 0, 1, 0] = Inr 1
   \<and> find_mep_timing [0, 1, 0, 1, 0] = Inr (Some 3)"
proof -
  have a: "is_mep [0, 1, 0, 1, 0]" by code_simp
  have b: "find_peaks [0, 1, 0, 1, 0] (5 / 100) = [1, 3]" by code_simp
  from is_mep_pulse_before_timing [OF a] b a show ?thesis by simp
qed

subsection \<open>Signals with one deflection\<close>

lemma rising_chain:
  fixes x :: signal
  assumes "\<And>k. k < a \<Longrightarrow> x ! k \<le> x ! (k + 1)" "i \<le> j" "j \<le> a"
  shows "x ! i \<le> x ! j"
  using \<open>i \<le> j\<close> \<open>j \<le> a\<close>
proof (induction rule: dec_induct)
  case base
  show ?case by simp
next
  case (step n)
  then have "x ! i \<le> x ! n" by simp
  also from step assms(1) [of n] have "x ! n \<le> x ! Suc n" by simp
  finally show ?case .
qed

lemma falling_chain:
  fixes x :: signal
  assumes "\<And>k. a \<le> k \<Longrightarrow> k + 1 < length x \<Longrightarrow> x ! (k + 1) \<le> x ! k"
    "a \<le> i" "i \<le> j" "j < length x"
  shows "x ! j \<le> x ! i"
  using \<open>i \<le> j\<close> \<open>j < length x\<close>
proof (induction rule: dec_induct)
  case base
  show ?case by simp
next
  case (step n)
  from step assms(1) [of n] \<open>a \<le> i\<close> have "x ! Suc n \<le> x ! n" by simp
  also from step have "x ! n \<le> x ! i" by simp
  finally show ?case .
qed

lemma strictly_sorted_singleton:
  assumes "sorted_wrt (<) (xs :: nat list)" "set xs = {a}"
  shows "xs = [a]"
proof -
  from assms(1) have "distinct xs" by (simp add: strict_sorted_iff)
  then have "length xs = card (set xs)" by (simp add: distinct_card)
  with assms(2) have "length xs = 1" by simp
  then obtain y where "xs = [y]" by (cases xs) auto
  with assms(2) show ?thesis by simp
qed

lemma hump_local_maxima:
  fixes x :: signal
  assumes a: "1 \<le> a" "a + 1 < length x"
    and up: "\<And>k. k < a \<Longrightarrow> x ! k \<le> x ! (k + 1)"
    and down: "\<And>k. a \<le> k \<Longrightarrow> k + 1 < length x \<Longrightarrow> x ! (k + 1) \<le> x ! k"
    and left: "x ! (a - 1) < x ! a" and right: "x ! (a + 1) < x ! a"
  shows "local_maxima_from x 1 = [a]"
proof -
  have "a \<in> set (local_maxima_from x 1)"
    using a left right by (intro local_maxima_from_complete) simp_all
  moreover have "p = a" if "p \<in> set (local_maxima_from x 1)" for p
  proof -
    have "\<exists>l r. 1 \<le> l \<and> plateau_peak x l r p"
      by (rule local_maxima_from_sound [OF _ that]) simp
    then obtain l r where pp: "plateau_peak x l r p" by blast
    from plateau_peak_edges [OF pp]
    have l1: "1 \<le> l" and lr: "l \<le> r" and rn: "r + 1 < length x"
      and rise: "x ! (l - 1) < x ! l" and fall: "x ! (r + 1) < x ! l" by blast+
    have level: "x ! k = x ! l" if "l \<le> k" "k \<le> r" for k
      using plateau_peak_level [OF pp that] .
    have la: "l \<le> a"
    proof (rule ccontr)
      assume "\<not> l \<le> a"
      with down [of "l - 1"] l1 lr rn have "x ! l \<le> x ! (l - 1)" by simp
      with rise show False by simp
    qed
    have ar: "a \<le> r"
    proof (rule ccontr)
      assume "\<not> a \<le> r"
      with up [of r] have "x ! r \<le> x ! (r + 1)" by simp
      with fall level [of r] lr show False by simp
    qed
    have "l = a"
    proof (rule ccontr)
      assume "l \<noteq> a"
      with la ar have "x ! (a - 1) = x ! l" "x ! a = x ! l" by (auto intro: level)
      with left show False by simp
    qed
    moreover have "r = a"
    proof (rule ccontr)
      assume "r \<noteq> a"
      with la ar have "x ! (a + 1) = x ! l" "x ! a = x ! l" by (auto intro: level)
      with right show False by simp
    qed
    moreover from pp have "p = (l + r) div 2" unfolding plateau_peak_def by blast
    ultimately show ?thesis by simp
  qed
  ultimately have "set (local_maxima_from x 1) = {a}" by blast
  with local_maxima_from_sorted [of 1 x] show ?thesis
    by (intro strictly_sorted_singleton) simp_all
qed

lemma hump_prominence:
  fixes x :: signal
  assumes a: "1 \<le> a" "a + 1 < length x"
    and up: "\<And>k. k < a \<Longrightarrow> x ! k \<le> x ! (k + 1)"
    and down: "\<And>k. a \<le> k \<Longrightarrow> k + 1 < length x \<Longrightarrow> x ! (k + 1) \<le> x ! k"
  shows "peak_prominence x a = x ! a - max (x ! 0) (x ! (length x - 1))"
proof -
  have "left_min_scan x a a (x ! a) = x ! 0"
  proof (rule left_min_scan_monotone)
    show "\<forall>k\<le>a. x ! k \<le> x ! a" using rising_chain [OF up] by blast
    show "\<forall>k<a. x ! k \<le> x ! (k + 1)" using up by blast
    show "x ! a \<le> x ! a" by simp
  qed
  moreover have "right_min_scan x a a (x ! a) = x ! (length x - 1)"
  proof (rule right_min_scan_monotone)
    show "a < length x" using a by simp
    show "\<forall>k. a \<le> k \<and> k < length x \<longrightarrow> x ! k \<le> x ! a"
      using falling_chain [OF down, of a a] by blast
    show "\<forall>k. a \<le> k \<and> k + 1 < length x \<longrightarrow> x ! (k + 1) \<le> x ! k" using down by blast
    show "x ! a \<le> x ! a" by simp
  qed
  ultimately show ?thesis by (simp add: peak_prominence_def)
qed

lemma single_deflection_find_peaks:
  assumes "single_deflection x a"
  shows "find_peaks x (5 / 100) = [a]"
proof -
  from assms have a: "1 \<le> a" "a + 1 < length x"
    and up': "\<forall>k\<in>{0..<a}. x ! k \<le> x ! (k + 1)"
    and down': "\<forall>k\<in>{a..<length x - 1}. x ! (k + 1) \<le> x ! k"
    and left: "x ! (a - 1) < x ! a" and right: "x ! (a + 1) < x ! a"
    and prom: "5 / 100 \<le> x ! a - max (x ! 0) (x ! (length x - 1))"
    unfolding single_deflection_def by blast+
  from up' have up: "\<And>k. k < a \<Longrightarrow> x ! k \<le> x ! (k + 1)" by simp
  from down' have down: "\<And>k. a \<le> k \<Longrightarrow> k + 1 < length x \<Longrightarrow> x ! (k + 1) \<le> x ! k" by simp
  have "local_maxima_from x 1 = [a]"
    using a up down left right by (rule hump_local_maxima)
  moreover have "peak_prominence x a = x ! a - max (x ! 0) (x ! (length x - 1))"
    using a up down by (rule hump_prominence)
  ultimately show ?thesis using prom
    unfolding find_peaks_def local_maxima_1d_def by simp
qed

lemma valley_local_maxima:
  fixes x :: signal
  assumes down: "\<And>k. k < a \<Longrightarrow> k + 1 < length x \<Longrightarrow> x ! (k + 1) \<le> x ! k"
    and up: "\<And>k. a \<le> k \<Longrightarrow> k + 1 < length x \<Longrightarrow> x ! k \<le> x ! (k + 1)"
  shows "local_maxima_from x 1 = []"
proof (rule ccontr)
  assume "local_maxima_from x 1 \<noteq> []"
  then obtain p where p: "p \<in> set (local_maxima_from x 1)"
    by (meson last_in_set)
  have "\<exists>l r. 1 \<le> l \<and> plateau_peak x l r p"
    by (rule local_maxima_from_sound [OF _ p]) simp
  then obtain l r where pp: "plateau_peak x l r p" by blast
  from plateau_peak_edges [OF pp]
  have l1: "1 \<le> l" and lr: "l \<le> r" and rn: "r + 1 < length x"
    and rise: "x ! (l - 1) < x ! l" and fall: "x ! (r + 1) < x ! l" by blast+
  have level: "x ! r = x ! l"
    using plateau_peak_level [OF pp lr] by simp
  have "a < l"
  proof (rule ccontr)
    assume "\<not> a < l"
    with down [of "l - 1"] l1 lr rn have "x ! l \<le> x ! (l - 1)" by simp
    with rise show False by simp
  qed
  with up [of r] lr rn have "x ! r \<le> x ! (r + 1)" by simp
  with fall level show False by simp
qed

lemma negative_deflection_find_peaks:
  assumes "single_deflection (map uminus x) a"
  shows "find_peaks x (5 / 100) = []"
proof -
  let ?y = "map uminus x"
  from assms have a: "a + 1 < length ?y"
    and up: "\<forall>k\<in>{0..<a}. ?y ! k \<le> ?y ! (k + 1)"
    and down: "\<forall>k\<in>{a..<length ?y - 1}. ?y ! (k + 1) \<le> ?y ! k"
    unfolding single_deflection_def by blast+
  have "local_maxima_from x 1 = []"
  proof (rule valley_local_maxima [of a])
    fix k assume k: "k < a" "k + 1 < length x"
    then have "k \<in> {0..<a}" by simp
    from bspec [OF up this] have "?y ! k \<le> ?y ! (k + 1)" .
    moreover from k have "?y ! k = - x ! k" "?y ! (k + 1) = - x ! (k + 1)" by simp_all
    ultimately show "x ! (k + 1) \<le> x ! k" by simp
  next
    fix k assume k: "a \<le> k" "k + 1 < length x"
    then have "k \<in> {a..<length ?y - 1}" by simp
    from bspec [OF down this] have "?y ! (k + 1) \<le> ?y ! k" .
    moreover from k have "?y ! k = - x ! k" "?y ! (k + 1) = - x ! (k + 1)" by simp_all
    ultimately show "x ! k \<le> x ! (k + 1)" by simp
  qed
  then show ?thesis unfolding find_peaks_def local_maxima_1d_def by simp
qed

text \<open>
  Claim C6. \<open>find_tms_pulse\<close> returns the first qualifying peak of the signal when there
  is one, and otherwise the first qualifying peak of the negated signal when there is
  one. In particular a signal with a single qualifying positive deflection at \<open>a\<close> gives
  \<open>a\<close>, and a signal whose only deflection is a qualifying negative one, with its trough
  at \<open>a\<close>, gives \<open>a\<close>.
\<close>

theorem find_tms_pulse_polarity:
  "(find_peaks sig (5 / 100) \<noteq> [] \<longrightarrow>
      find_tms_pulse sig = Inr (find_peaks sig (5 / 100) ! 0))
   \<and> (find_peaks sig (5 / 100) = [] \<and> find_peaks (map uminus sig) (5 / 100) \<noteq> [] \<longrightarrow>
      find_tms_pulse sig = Inr (find_peaks (map uminus sig) (5 / 100) ! 0))
   \<and> (single_deflection sig a \<longrightarrow> find_tms_pulse sig = Inr a)
   \<and> (single_deflection (map uminus sig) a \<longrightarrow> find_tms_pulse sig = Inr a)"
proof (intro conjI impI)
  assume "find_peaks sig (5 / 100) \<noteq> []"
  then show "find_tms_pulse sig = Inr (find_peaks sig (5 / 100) ! 0)"
    by (simp add: find_tms_pulse_def getitem_def)
next
  assume "find_peaks sig (5 / 100) = [] \<and> find_peaks (map uminus sig) (5 / 100) \<noteq> []"
  then show "find_tms_pulse sig = Inr (find_peaks (map uminus sig) (5 / 100) ! 0)"
    by (simp add: find_tms_pulse_def getitem_def)
next
  assume "single_deflection sig a"
  then have "find_peaks sig (5 / 100) = [a]" by (rule single_deflection_find_peaks)
  then show "find_tms_pulse sig = Inr a"
    by (simp add: find_tms_pulse_def getitem_def)
next
  assume d: "single_deflection (map uminus sig) a"
  then have "find_peaks (map uminus sig) (5 / 100) = [a]" by (rule single_deflection_find_peaks)
  moreover from d have "find_peaks sig (5 / 100) = []" by (rule negative_deflection_find_peaks)
  ultimately show "find_tms_pulse sig = Inr a"
    by (simp add: find_tms_pulse_def getitem_def)
qed

theorem find_tms_pulse_polarity_witness:
  "single_deflection [0, 0, 1 / 2, 1, 1 / 4, 0] 3
   \<and> find_tms_pulse [0, 0, 1 / 2, 1, 1 / 4, 0] = Inr 3
   \<and> single_deflection (map uminus [0, - 1 / 4, - 1, 0, 0]) 2
   \<and> find_tms_pulse [0, - 1 / 4, - 1, 0, 0] = Inr 2
   \<and> find_peaks [0, - 1 / 4, - 1, 0, 0] (5 / 100) = []
   \<and> find_peaks (map uminus [0, - 1 / 4, - 1, 0, 0]) (5 / 100) \<noteq> []
   \<and> find_peaks [0, 1, 0, 1, 0] (5 / 100) \<noteq> []
   \<and> find_tms_pulse [0, 1, 0, 1, 0] = Inr 1"
proof -
  have p: "single_deflection [0, 0, 1 / 2, 1, 1 / 4, 0] 3" by code_simp
  have n: "single_deflection (map uminus [0, - 1 / 4, - 1, 0, 0]) 2" by code_simp
  have e: "find_peaks [0, - 1 / 4, - 1, 0, 0] (5 / 100) = []" by code_simp
  have f: "find_peaks (map uminus [0, - 1 / 4, - 1, 0, 0]) (5 / 100) = [2]" by code_simp
  have g: "find_peaks [0, 1, 0, 1, 0] (5 / 100) = [1, 3]" by code_simp
  from find_tms_pulse_polarity [of "[0, 0, 1 / 2, 1, 1 / 4, 0]" 3] p
  have "find_tms_pulse [0, 0, 1 / 2, 1, 1 / 4, 0] = Inr 3" by blast
  moreover from find_tms_pulse_polarity [of "[0, - 1 / 4, - 1, 0, 0]" 2] n
  have "find_tms_pulse [0, - 1 / 4, - 1, 0, 0] = Inr 2" by blast
  moreover from find_tms_pulse_polarity [of "[0, 1, 0, 1, 0]" 0] g
  have "find_tms_pulse [0, 1, 0, 1, 0] = Inr 1" by simp
  ultimately show ?thesis using p n e f g by simp
qed

subsection \<open>Adding a constant to every sample\<close>

lemma look_ahead_shift:
  "i < length x \<Longrightarrow> look_ahead (map (\<lambda>v. v + c) x) i j = look_ahead x i j"
proof (induction x i j rule: look_ahead.induct)
  case (1 x i i_ahead)
  let ?y = "map (\<lambda>v. v + c) x"
  show ?case
  proof (cases "i_ahead < length x - 1 \<and> x ! i_ahead = x ! i")
    case True
    then have "i_ahead < length x" by linarith
    with True "1.prems" have c: "i_ahead < length ?y - 1 \<and> ?y ! i_ahead = ?y ! i" by simp
    have "look_ahead ?y i i_ahead = look_ahead ?y i (i_ahead + 1)"
      using c by (subst look_ahead.simps) simp
    also have "\<dots> = look_ahead x i (i_ahead + 1)"
      using "1.IH" True "1.prems" by simp
    also have "\<dots> = look_ahead x i i_ahead"
      using True by (subst (2) look_ahead.simps) simp
    finally show ?thesis .
  next
    case False
    have "?y ! i_ahead = x ! i_ahead + c" "?y ! i = x ! i + c" if "i_ahead < length x - 1"
      using that "1.prems" by simp_all
    with False have c: "\<not> (i_ahead < length ?y - 1 \<and> ?y ! i_ahead = ?y ! i)" by auto
    have "look_ahead ?y i i_ahead = i_ahead"
      using c by (subst look_ahead.simps) auto
    moreover have "look_ahead x i i_ahead = i_ahead"
      using False by (subst look_ahead.simps) auto
    ultimately show ?thesis by simp
  qed
qed

lemma local_maxima_from_shift:
  "local_maxima_from (map (\<lambda>v. v + c) x) i = local_maxima_from x i"
proof (induction x i rule: local_maxima_from.induct)
  case (1 x i)
  let ?y = "map (\<lambda>v. v + c) x"
  show ?case
  proof (cases "i < length x - 1")
    case False
    then show ?thesis by (simp add: local_maxima_from_unfold_end)
  next
    case inr: True
    let ?j = "look_ahead x i (i + 1)"
    from inr have jy: "look_ahead ?y i (i + 1) = ?j" by (simp add: look_ahead_shift)
    from inr have "?j \<le> length x - 1" by (intro look_ahead_le) simp
    with inr have jn: "?j < length x" by simp
    from inr have yi: "?y ! i = x ! i + c" "?y ! (i - 1) = x ! (i - 1) + c" by simp_all
    from jn have yj: "?y ! ?j = x ! ?j + c" by simp
    from inr have inr': "i < length ?y - 1" by simp
    show ?thesis
    proof (cases "x ! (i - 1) < x ! i \<and> x ! ?j < x ! i")
      case True
      with yi yj jy have ty: "?y ! (i - 1) < ?y ! i" "?y ! (look_ahead ?y i (i + 1)) < ?y ! i"
        by simp_all
      have "local_maxima_from ?y i = ((i + (?j - 1)) div 2) # local_maxima_from ?y (?j + 1)"
        using local_maxima_from_unfold_peak [OF inr' ty] jy by simp
      also have "local_maxima_from ?y (?j + 1) = local_maxima_from x (?j + 1)"
        using "1.IH"(1) [OF inr _ refl] True by simp
      also have "((i + (?j - 1)) div 2) # local_maxima_from x (?j + 1) = local_maxima_from x i"
        using local_maxima_from_unfold_peak [OF inr] True by simp
      finally show ?thesis .
    next
      case False
      with yi yj jy
      have fy: "\<not> (?y ! (i - 1) < ?y ! i \<and> ?y ! (look_ahead ?y i (i + 1)) < ?y ! i)"
        by simp
      have "local_maxima_from ?y i = local_maxima_from ?y (i + 1)"
        using local_maxima_from_unfold_skip [OF inr' fy] .
      also have "\<dots> = local_maxima_from x (i + 1)"
      proof (cases "x ! (i - 1) < x ! i")
        case True
        with False have "\<not> x ! ?j < x ! i" by simp
        with "1.IH"(2) [OF inr True refl] show ?thesis by simp
      next
        case False
        with "1.IH"(3) [OF inr] show ?thesis by simp
      qed
      also have "\<dots> = local_maxima_from x i"
        using local_maxima_from_unfold_skip [OF inr False] by simp
      finally show ?thesis .
    qed
  qed
qed

lemma left_min_scan_shift:
  "i < length x \<Longrightarrow> peak < length x \<Longrightarrow>
     left_min_scan (map (\<lambda>v. v + c) x) peak i (lm + c) = left_min_scan x peak i lm + c"
proof (induction i arbitrary: lm)
  case 0
  then show ?case by simp
next
  case (Suc i)
  let ?y = "map (\<lambda>v. v + c) x"
  from Suc.prems have y: "?y ! Suc i = x ! Suc i + c" "?y ! peak = x ! peak + c" by simp_all
  show ?case
  proof (cases "x ! Suc i \<le> x ! peak")
    case False
    with y show ?thesis by simp
  next
    case True
    let ?lm = "if x ! Suc i < lm then x ! Suc i else lm"
    have "left_min_scan ?y peak (Suc i) (lm + c) = left_min_scan ?y peak i (?lm + c)"
      using True y by simp
    also have "\<dots> = left_min_scan x peak i ?lm + c"
      using Suc.prems by (intro Suc.IH) simp_all
    also have "\<dots> = left_min_scan x peak (Suc i) lm + c"
      using True by simp
    finally show ?thesis .
  qed
qed

lemma right_min_scan_step:
  "i < length x \<Longrightarrow> x ! i \<le> x ! peak \<Longrightarrow>
     right_min_scan x peak i rm =
       right_min_scan x peak (i + 1) (if x ! i < rm then x ! i else rm)"
  by (subst right_min_scan.simps) simp

lemma right_min_scan_stop:
  "\<not> (i < length x \<and> x ! i \<le> x ! peak) \<Longrightarrow> right_min_scan x peak i rm = rm"
  by (subst right_min_scan.simps) auto

lemma right_min_scan_shift:
  "peak < length x \<Longrightarrow>
     right_min_scan (map (\<lambda>v. v + c) x) peak i (rm + c) = right_min_scan x peak i rm + c"
proof (induction x peak i rm rule: right_min_scan.induct)
  case (1 x peak i rm)
  let ?y = "map (\<lambda>v. v + c) x"
  from "1.prems" have yp: "?y ! peak = x ! peak + c" by simp
  show ?case
  proof (cases "i < length x \<and> x ! i \<le> x ! peak")
    case True
    then have yi: "?y ! i = x ! i + c" by simp
    let ?rm = "if x ! i < rm then x ! i else rm"
    have "right_min_scan ?y peak i (rm + c) =
            right_min_scan ?y peak (i + 1) (if ?y ! i < rm + c then ?y ! i else rm + c)"
      using True yi yp by (intro right_min_scan_step) simp_all
    also have "(if ?y ! i < rm + c then ?y ! i else rm + c) = ?rm + c"
      using yi by simp
    also have "right_min_scan ?y peak (i + 1) (?rm + c) = right_min_scan x peak (i + 1) ?rm + c"
      using "1.IH" [OF True "1.prems"] .
    also have "right_min_scan x peak (i + 1) ?rm = right_min_scan x peak i rm"
      using True by (simp add: right_min_scan_step)
    finally show ?thesis .
  next
    case False
    have "?y ! i = x ! i + c" if "i < length x" using that by simp
    with False yp have cy: "\<not> (i < length ?y \<and> ?y ! i \<le> ?y ! peak)" by auto
    from right_min_scan_stop [OF cy] right_min_scan_stop [OF False]
    show ?thesis by simp
  qed
qed

lemma peak_prominence_shift:
  assumes "peak < length x"
  shows "peak_prominence (map (\<lambda>v. v + c) x) peak = peak_prominence x peak"
proof -
  let ?y = "map (\<lambda>v. v + c) x"
  from assms have y: "?y ! peak = x ! peak + c" by simp
  have "left_min_scan ?y peak peak (x ! peak + c) = left_min_scan x peak peak (x ! peak) + c"
    using assms by (rule left_min_scan_shift [OF assms])
  moreover
  have "right_min_scan ?y peak peak (x ! peak + c) = right_min_scan x peak peak (x ! peak) + c"
    using assms by (rule right_min_scan_shift)
  ultimately show ?thesis
    unfolding peak_prominence_def Let_def y by (simp add: max_def)
qed

lemma find_peaks_shift:
  "find_peaks (map (\<lambda>v. v + c) x) prominence = find_peaks x prominence"
proof -
  have "peak_prominence (map (\<lambda>v. v + c) x) p = peak_prominence x p"
    if "p \<in> set (local_maxima_from x 1)" for p
  proof -
    from local_maxima_from_lower [OF _ that] have "p < length x" by simp
    then show ?thesis by (rule peak_prominence_shift)
  qed
  then show ?thesis
    unfolding find_peaks_def local_maxima_1d_def local_maxima_from_shift
    by (intro filter_cong) simp_all
qed

lemma py_slice_map: "py_slice (map f xs) start stop = map f (py_slice xs start stop)"
  by (simp add: py_slice_def drop_map take_map)

lemma np_max_shift:
  "np_max (map (\<lambda>v. v + c) xs) = (case np_max xs of Inl e \<Rightarrow> Inl e | Inr m \<Rightarrow> Inr (m + c))"
proof (cases "xs = []")
  case True
  then show ?thesis by (simp add: np_max_def)
next
  case False
  then have "Max ((\<lambda>v. v + c) ` set xs) = Max (set xs) + c"
    by (intro mono_Max_commute [symmetric]) (simp_all add: mono_def)
  with False show ?thesis by (simp add: np_max_def)
qed

lemma np_min_shift:
  "np_min (map (\<lambda>v. v + c) xs) = (case np_min xs of Inl e \<Rightarrow> Inl e | Inr m \<Rightarrow> Inr (m + c))"
proof (cases "xs = []")
  case True
  then show ?thesis by (simp add: np_min_def)
next
  case False
  then have "Min ((\<lambda>v. v + c) ` set xs) = Min (set xs) + c"
    by (intro mono_Min_commute [symmetric]) (simp_all add: mono_def)
  with False show ?thesis by (simp add: np_min_def)
qed

text \<open>
  With exact addition, adding one constant to every sample changes neither the peaks
  found nor the peak-to-peak range of the window: \<open>get_mep_size\<close> gives the same result,
  and where it raises on the one signal it raises the same error on the other.
\<close>

lemma get_mep_size_shift:
  "get_mep_size (map (\<lambda>v. v + c) sig) = get_mep_size sig"
proof -
  have t: "find_mep_timing (map (\<lambda>v. v + c) sig) = find_mep_timing sig"
    by (simp add: find_mep_timing_def is_mep_def find_peaks_shift)
  show ?thesis
    unfolding get_mep_size_def t
    by (simp add: py_slice_map np_max_shift np_min_shift Let_def
          split: sum.splits option.splits)
qed

text \<open>
  Claim C5, as stated, holds for every constant. The samples are 64-bit floating-point
  values and the addition rounds. Take the five samples 0, 0.05, 0, 0.05, 0 and the
  constant 0.2, each as the representable value nearest to it: the signal has two peaks
  of prominence 0.05 and its size is 0.05; the sum of 0.05 and 0.2 rounds to 0.25, which
  stands less than 0.05 above the rounded 0.2, so the shifted signal has no peak and
  \<open>get_mep_size\<close> raises \<open>TypeError\<close> on it.
\<close>

theorem get_mep_size_offset_rounding_counterexample:
  "float64_round (5 / 100) = 3602879701896397 / 72057594037927936
   \<and> float64_round (2 / 10) = 3602879701896397 / 18014398509481984
   \<and> map (\<lambda>v. float64_add v (3602879701896397 / 18014398509481984))
        [0, 3602879701896397 / 72057594037927936, 0, 3602879701896397 / 72057594037927936, 0]
      = [3602879701896397 / 18014398509481984, 1 / 4,
         3602879701896397 / 18014398509481984, 1 / 4,
         3602879701896397 / 18014398509481984]
   \<and> get_mep_size
        [0, 3602879701896397 / 72057594037927936, 0, 3602879701896397 / 72057594037927936, 0]
      = Inr (3602879701896397 / 72057594037927936)
   \<and> get_mep_size
        (map (\<lambda>v. float64_add v (3602879701896397 / 18014398509481984))
           [0, 3602879701896397 / 72057594037927936, 0,
            3602879701896397 / 72057594037927936, 0])
      = Inl TypeError"
  by code_simp

text \<open>
  Claim C5, amended. For every signal and every constant whose addition to each sample
  is exact, that is within range and not changed by the rounding, \<open>get_mep_size\<close> gives
  on the shifted signal what it gives on the signal, errors included. (The differences
  that the code forms are the roundings of the exact differences, which are then the
  same on both sides.)
\<close>

theorem get_mep_size_exact_offset_invariant:
  assumes "\<forall>v\<in>set sig. float64_exact_add v c"
  shows "get_mep_size (map (\<lambda>v. float64_add v c) sig) = get_mep_size sig"
proof -
  have "map (\<lambda>v. float64_add v c) sig = map (\<lambda>v. v + c) sig"
  proof (rule map_cong [OF refl])
    fix v assume "v \<in> set sig"
    with assms have "float64_exact_add v c" by blast
    then show "float64_add v c = v + c"
      unfolding float64_exact_add_def float64_add_def by blast
  qed
  then show ?thesis by (simp only: get_mep_size_shift)
qed

theorem get_mep_size_exact_offset_invariant_witness:
  "float64_exact_add 0 (1 / 4) \<and> float64_exact_add (1 / 2) (1 / 4)
   \<and> map (\<lambda>v. float64_add v (1 / 4)) [0, 1 / 2, 0, 1 / 2, 0] = [1 / 4, 3 / 4, 1 / 4, 3 / 4, 1 / 4]
   \<and> get_mep_size (map (\<lambda>v. float64_add v (1 / 4)) [0, 1 / 2, 0, 1 / 2, 0]) = Inr (1 / 2)
   \<and> get_mep_size [0, 1 / 2, 0, 1 / 2, 0] = Inr (1 / 2)"
proof -
  have a: "float64_exact_add 0 (1 / 4)" by code_simp
  have b: "float64_exact_add (1 / 2) (1 / 4)" by code_simp
  have m: "map (\<lambda>v. float64_add v (1 / 4)) [0, 1 / 2, 0, 1 / 2, 0]
             = [1 / 4, 3 / 4, 1 / 4, 3 / 4, 1 / 4]" by code_simp
  have g: "get_mep_size [0, 1 / 2, 0, 1 / 2, 0] = Inr (1 / 2)" by code_simp
  from a b have "\<forall>v\<in>set [0, 1 / 2, 0, 1 / 2, 0]. float64_exact_add v (1 / 4)" by simp
  from get_mep_size_exact_offset_invariant [OF this] a b m g show ?thesis by simp
qed

subsection \<open>The amplitude window\<close>

lemma set_drop_take:
  "set (drop a (take b xs)) = (!) xs ` {i. a \<le> i \<and> i < b \<and> i < length xs}"
proof (intro set_eqI iffI)
  fix v assume "v \<in> set (drop a (take b xs))"
  then obtain j where j: "j < length (drop a (take b xs))" and v: "v = drop a (take b xs) ! j"
    by (auto simp: in_set_conv_nth)
  from j have ab: "a + j < b" "a + j < length xs" by simp_all
  then have "a \<le> length (take b xs)" by simp
  then have "drop a (take b xs) ! j = take b xs ! (a + j)" by (rule nth_drop)
  with v ab have "v = xs ! (a + j)" by simp
  with ab
  show "v \<in> (!) xs ` {i. a \<le> i \<and> i < b \<and> i < length xs}" by simp
next
  fix v assume "v \<in> (!) xs ` {i. a \<le> i \<and> i < b \<and> i < length xs}"
  then obtain i where i: "a \<le> i" "i < b" "i < length xs" and v: "v = xs ! i" by auto
  then have len: "i - a < length (drop a (take b xs))" by simp
  from i have "a \<le> length (take b xs)" by simp
  then have "drop a (take b xs) ! (i - a) = take b xs ! (a + (i - a))" by (rule nth_drop)
  with i v have "drop a (take b xs) ! (i - a) = v" by simp
  with len show "v \<in> set (drop a (take b xs))" by (metis nth_mem)
qed

lemma find_mep_timing_in_range:
  assumes "find_mep_timing sig = Inr (Some t)"
  shows "1 \<le> t \<and> t + 1 < length sig"
proof -
  let ?peaks = "find_peaks sig (5 / 100)"
  from assms have "1 < length ?peaks \<and> t = ?peaks ! 1"
    by (auto simp: find_mep_timing_def is_mep_def getitem_def Let_def split: if_splits)
  then have "t \<in> set ?peaks" by simp
  from find_peaks_bounds [OF this] show ?thesis by simp
qed

text \<open>
  When the timing \<open>t\<close> is at least 50, the slice holds exactly the samples whose position
  lies in the half-open window from \<open>t - 50\<close> to \<open>t + 50\<close>; a window that runs past the
  end of the signal is cut at the end.
\<close>

lemma get_mep_size_window:
  assumes t: "find_mep_timing sig = Inr (Some t)" and "50 \<le> t"
  shows "get_mep_size sig =
           Inr (Max ((!) sig ` {w. t - 50 \<le> w \<and> w < t + 50 \<and> w < length sig})
              - Min ((!) sig ` {w. t - 50 \<le> w \<and> w < t + 50 \<and> w < length sig}))"
proof -
  let ?W = "{w. t - 50 \<le> w \<and> w < t + 50 \<and> w < length sig}"
  let ?n = "length sig"
  from find_mep_timing_in_range [OF t] have tn: "t < ?n" by simp
  from \<open>50 \<le> t\<close> tn have lo: "slice_bound ?n (int t - 50) = t - 50"
    by (simp add: slice_bound_def)
  have hi: "slice_bound ?n (int t + 50) = min ?n (t + 50)"
    by (simp add: slice_bound_def nat_add_distrib)
  have "set (py_slice sig (int t - 50) (int t + 50)) = (!) sig ` ?W"
    unfolding py_slice_def lo hi set_drop_take by (intro arg_cong [where f = "(`) ((!) sig)"]) auto
  moreover from tn have "t \<in> ?W" by simp
  then have "(!) sig ` ?W \<noteq> {}" by blast
  ultimately have ne: "py_slice sig (int t - 50) (int t + 50) \<noteq> []"
    and eq: "set (py_slice sig (int t - 50) (int t + 50)) = (!) sig ` ?W"
    by auto
  show ?thesis
    unfolding get_mep_size_def t by (simp add: np_max_def np_min_def ne eq Let_def)
qed

text \<open>
  The scenario of the specification: 200 samples, all zero but 1 at position 50 and 0.5
  at position 150. The pulse is at 50, the timing is 150 and the size, over the
  positions 100 to 199, is 0.5.
\<close>

lemma get_mep_size_scenario:
  "is_mep (replicate 50 0 @ [1] @ replicate 99 0 @ [1 / 2] @ replicate 49 0)
   \<and> find_tms_pulse (replicate 50 0 @ [1] @ replicate 99 0 @ [1 / 2] @ replicate 49 0) = Inr 50
   \<and> find_mep_timing (replicate 50 0 @ [1] @ replicate 99 0 @ [1 / 2] @ replicate 49 0)
       = Inr (Some 150)
   \<and> get_mep_size (replicate 50 0 @ [1] @ replicate 99 0 @ [1 / 2] @ replicate 49 0)
       = Inr (1 / 2)"
  by code_simp

text \<open>
  Claim C4 at a signal of 60 samples with peaks at 10 and 20. The timing is 20, the slice
  starts at \<open>-30\<close>, which counts from the end, and holds the samples 30 to 59 only: the
  result is 0, while the samples of the window around the timing, positions 0 to 59, span
  a range of 1.
\<close>

theorem get_mep_size_wrapped_window:
  "find_mep_timing (replicate 10 0 @ [1] @ replicate 9 0 @ [1] @ replicate 39 0) = Inr (Some 20)
   \<and> py_slice (replicate 10 0 @ [1] @ replicate 9 0 @ [1] @ replicate 39 0) (20 - 50) (20 + 50)
       = replicate 30 (0 :: real)
   \<and> get_mep_size (replicate 10 0 @ [1] @ replicate 9 0 @ [1] @ replicate 39 0) = Inr 0
   \<and> Max ((!) (replicate 10 0 @ [1] @ replicate 9 0 @ [1] @ replicate 39 0) ` {0..<60})
       - Min ((!) (replicate 10 0 @ [1] @ replicate 9 0 @ [1] @ replicate 39 0) ` {0..<60})
       = (1 :: real)"
  by code_simp

text \<open>
  Claim C9 at a signal of 105 samples with peaks at 1 and 3. The timing is 3, the slice
  runs from \<open>-47\<close>, that is position 58, to 53 and is empty, and the maximum of the empty
  slice raises \<open>ValueError\<close>. With 64 samples the same slice runs from position 17 to 53,
  misses both peaks and gives 0, while the window cut at the start of the signal,
  positions 0 to 52, spans a range of 1.
\<close>

theorem get_mep_size_empty_window:
  "find_mep_timing ([0, 1, 0, 1, 0] @ replicate 100 0) = Inr (Some 3)
   \<and> py_slice ([0, 1, 0, 1, 0] @ replicate 100 (0 :: real)) (3 - 50) (3 + 50) = []
   \<and> get_mep_size ([0, 1, 0, 1, 0] @ replicate 100 0) = Inl ValueError
   \<and> find_mep_timing ([0, 1, 0, 1, 0] @ replicate 59 0) = Inr (Some 3)
   \<and> get_mep_size ([0, 1, 0, 1, 0] @ replicate 59 0) = Inr 0
   \<and> Max ((!) ([0, 1, 0, 1, 0] @ replicate 59 0) ` {0..<53})
       - Min ((!) ([0, 1, 0, 1, 0] @ replicate 59 0) ` {0..<53}) = (1 :: real)"
  by code_simp

section \<open>Claims about the recruitment curve\<close>

lemma mep_sizes_loop_complete:
  assumes "\<forall>col\<in>set df. is_mep col \<longrightarrow> (\<exists>v. get_mep_size col = Inr v)"
  shows "\<exists>ms. mep_sizes_loop df acc = Inr (acc @ ms) \<and> length ms = length df
           \<and> (\<forall>i<length df. (ms ! i = None) = (\<not> is_mep (df ! i)))"
  using assms
proof (induction df arbitrary: acc)
  case Nil
  then show ?case by simp
next
  case (Cons col cols)
  then have "\<forall>c\<in>set cols. is_mep c \<longrightarrow> (\<exists>v. get_mep_size c = Inr v)" by simp
  note IH = Cons.IH [OF this]
  show ?case
  proof (cases "is_mep col")
    case True
    with Cons.prems obtain v where v: "get_mep_size col = Inr v" by auto
    from IH [of "acc @ [Some v]"] obtain ms
      where ms: "mep_sizes_loop cols (acc @ [Some v]) = Inr ((acc @ [Some v]) @ ms)"
        "length ms = length cols" "\<forall>i<length cols. (ms ! i = None) = (\<not> is_mep (cols ! i))"
      by blast
    have "mep_sizes_loop (col # cols) acc = Inr (acc @ (Some v # ms))"
      using True v ms(1) by simp
    moreover have "length (Some v # ms) = length (col # cols)" using ms(2) by simp
    moreover have "\<forall>i<length (col # cols). ((Some v # ms) ! i = None) = (\<not> is_mep ((col # cols) ! i))"
      using True ms(3) by (simp add: nth_Cons split: nat.splits)
    ultimately show ?thesis by blast
  next
    case False
    from IH [of "acc @ [None]"] obtain ms
      where ms: "mep_sizes_loop cols (acc @ [None]) = Inr ((acc @ [None]) @ ms)"
        "length ms = length cols" "\<forall>i<length cols. (ms ! i = None) = (\<not> is_mep (cols ! i))"
      by blast
    have "mep_sizes_loop (col # cols) acc = Inr (acc @ (None # ms))"
      using False ms(1) by simp
    moreover have "length (None # ms) = length (col # cols)" using ms(2) by simp
    moreover have "\<forall>i<length (col # cols). ((None # ms) ! i = None) = (\<not> is_mep ((col # cols) ! i))"
      using False ms(3) by (simp add: nth_Cons split: nat.splits)
    ultimately show ?thesis by blast
  qed
qed

lemma sum_loop_all_absent:
  "\<forall>i\<in>set idx. location + i < length ms \<and> ms ! (location + i) = None
     \<Longrightarrow> sum_loop ms location idx (s, c) = Inr (s, c)"
  by (induction idx) (simp_all add: getitem_def)

lemma sum_loop_in_range:
  "\<forall>i\<in>set idx. location + i < length ms
     \<Longrightarrow> \<exists>s' c'. sum_loop ms location idx (s, c) = Inr (s', c')"
proof (induction idx arbitrary: s c)
  case Nil
  then show ?case by simp
next
  case (Cons i idx)
  then have r: "location + i < length ms" and rest: "\<forall>j\<in>set idx. location + j < length ms"
    by simp_all
  show ?case
  proof (cases "ms ! (location + i)")
    case None
    with r Cons.IH [OF rest, of s c] show ?thesis by (simp add: getitem_def)
  next
    case (Some v)
    with r Cons.IH [OF rest, of "s + v" "c + 1"] show ?thesis by (simp add: getitem_def)
  qed
qed

lemma intensity_loop_first_group_absent:
  assumes "length ms = 42" "\<forall>i\<in>{12..<18}. ms ! i = None"
  shows "intensity_loop ms [1..<6] (0, 0) curve = Inl ZeroDivisionError"
proof -
  have "\<forall>i\<in>set [0..<6]. 12 + i < length ms \<and> ms ! (12 + i) = None"
    using assms by simp
  then have "sum_loop ms 12 [0..<6] (0, 0) = Inr (0, 0)"
    by (rule sum_loop_all_absent)
  moreover have "[1..<6] = 1 # [2..<6]" by (simp add: upt_rec)
  ultimately show ?thesis by (simp add: py_div_def)
qed

text \<open>
  What the returned curve holds, for a dataset whose 42 per-trial results are \<open>ms\<close>: the
  first entry is the mean of the present sizes of trials 0 to 11; the entry of intensity
  \<open>k\<close>, from 1 to 5, is the mean of the present sizes of all trials from 12 up to the end
  of group \<open>k\<close>.
\<close>

lemma present_sizes_empty: "present_sizes ms lo lo = []"
  by (simp add: present_sizes_def List.map_filter_simps)

lemma present_sizes_snoc:
  assumes "lo \<le> hi" "hi < length ms"
  shows "present_sizes ms lo (Suc hi) =
           present_sizes ms lo hi @ (case ms ! hi of None \<Rightarrow> [] | Some v \<Rightarrow> [v])"
proof -
  from assms have "drop lo (take (Suc hi) ms) = drop lo (take hi ms) @ [ms ! hi]"
    by (simp add: take_Suc_conv_app_nth)
  then show ?thesis
    by (simp add: present_sizes_def List.map_filter_def split: option.splits)
qed

lemma sum_loop_append:
  "sum_loop ms location (xs @ ys) acc =
     (case sum_loop ms location xs acc of Inl e \<Rightarrow> Inl e | Inr acc' \<Rightarrow> sum_loop ms location ys acc')"
proof (induction xs arbitrary: acc)
  case Nil
  show ?case by (cases acc) simp
next
  case (Cons i xs)
  show ?case
    by (cases acc) (simp add: Cons.IH split: sum.splits option.splits)
qed

lemma sum_loop_values:
  assumes "lo \<le> location" "location + n \<le> length ms"
  shows "sum_loop ms location [0..<n]
           (sum_list (present_sizes ms lo location), length (present_sizes ms lo location))
         = Inr (sum_list (present_sizes ms lo (location + n)),
                length (present_sizes ms lo (location + n)))"
  using assms(2)
proof (induction n)
  case 0
  show ?case by simp
next
  case (Suc n)
  then have r: "location + n < length ms" by simp
  from assms(1) have le: "lo \<le> location + n" by simp
  have "sum_loop ms location [0..<Suc n]
          (sum_list (present_sizes ms lo location), length (present_sizes ms lo location))
        = sum_loop ms location [n]
            (sum_list (present_sizes ms lo (location + n)),
             length (present_sizes ms lo (location + n)))"
    using Suc by (simp add: sum_loop_append)
  also have "\<dots> = Inr (sum_list (present_sizes ms lo (Suc (location + n))),
                        length (present_sizes ms lo (Suc (location + n))))"
    using r by (simp add: getitem_def present_sizes_snoc [OF le r] split: option.splits)
  finally show ?case by simp
qed

lemma intensity_loop_values:
  assumes n: "length ms = 42"
  shows "k \<le> 6 \<Longrightarrow> 1 \<le> k \<Longrightarrow> length curve = 6 \<Longrightarrow>
     intensity_loop ms [k..<6]
       (sum_list (present_sizes ms 12 (6 + 6 * k)), length (present_sizes ms 12 (6 + 6 * k)))
       curve = Inr curve' \<Longrightarrow>
     curve' = take k curve @ map (\<lambda>j. Some (mean (present_sizes ms 12 (12 + 6 * j)))) [k..<6]"
proof (induction k arbitrary: curve rule: inc_induct)
  case base
  then show ?case by simp
next
  case (step i)
  let ?acc = "(sum_list (present_sizes ms 12 (6 + 6 * i)), length (present_sizes ms 12 (6 + 6 * i)))"
  let ?vs = "present_sizes ms 12 (12 + 6 * i)"
  from step.hyps have up: "[i..<6] = i # [Suc i..<6]" by (simp add: upt_rec)
  have "12 \<le> 6 + 6 * i" "6 + 6 * i + 6 \<le> length ms" using step.prems(1) step.hyps n by simp_all
  from sum_loop_values [OF this]
  have s: "sum_loop ms (6 + i * 6) [0..<6] ?acc = Inr (sum_list ?vs, length ?vs)"
    by (simp add: mult.commute add.commute add.left_commute)
  from step.prems(3) s have ne: "length ?vs \<noteq> 0"
    unfolding up by (auto simp add: py_div_def split: if_splits)
  let ?curve = "curve[i := Some (mean ?vs)]"
  from step.prems(3) s ne
  have "intensity_loop ms [Suc i..<6] (sum_list ?vs, length ?vs) ?curve = Inr curve'"
    unfolding up by (simp add: py_div_def mean_def)
  moreover have "6 + 6 * Suc i = 12 + 6 * i" by simp
  ultimately have "intensity_loop ms [Suc i..<6]
      (sum_list (present_sizes ms 12 (6 + 6 * Suc i)), length (present_sizes ms 12 (6 + 6 * Suc i)))
      ?curve = Inr curve'" by simp
  with step.IH [of ?curve] step.prems(2) have "curve' = take (Suc i) ?curve
      @ map (\<lambda>j. Some (mean (present_sizes ms 12 (12 + 6 * j)))) [Suc i..<6]"
    by simp
  moreover from step.hyps step.prems have "take (Suc i) ?curve = take i curve @ [Some (mean ?vs)]"
    by (simp add: take_Suc_conv_app_nth)
  ultimately show ?case unfolding up by simp
qed

lemma plot_recruitment_curve_values:
  assumes loop: "mep_sizes_loop df [] = Inr ms" and n: "length ms = 42"
    and res: "plot_recruitment_curve df = Inr curve"
  shows "curve = Some (mean (present_sizes ms 0 12))
           # map (\<lambda>k. Some (mean (present_sizes ms 12 (12 + 6 * k)))) [1..<6]"
proof -
  let ?g0 = "present_sizes ms 0 12"
  have s0: "sum_loop ms 0 [0..<12] (0, 0) = Inr (sum_list ?g0, length ?g0)"
    using sum_loop_values [of 0 0 12 ms] n by (simp add: present_sizes_empty)
  from res loop s0 have ne: "length ?g0 \<noteq> 0"
    by (auto simp add: plot_recruitment_curve_def py_div_def split: if_splits)
  let ?curve = "(replicate 6 None)[0 := Some (mean ?g0)]"
  from res loop s0 ne
  have "intensity_loop ms [1..<6] (0, 0) ?curve = Inr curve"
    by (simp add: plot_recruitment_curve_def py_div_def mean_def)
  then have "intensity_loop ms [1..<6]
      (sum_list (present_sizes ms 12 (6 + 6 * 1)), length (present_sizes ms 12 (6 + 6 * 1)))
      ?curve = Inr curve"
    by (simp add: present_sizes_empty)
  from intensity_loop_values [OF n _ _ _ this]
  have "curve = take 1 ?curve @ map (\<lambda>j. Some (mean (present_sizes ms 12 (12 + 6 * j)))) [1..<6]"
    by simp
  moreover have "take 1 ?curve = [Some (mean ?g0)]"
    by (simp add: numeral_eq_Suc)
  ultimately show ?thesis by simp
qed

text \<open>
  Claim C1 at a dataset of 42 trials whose sizes are 1 for trials 0 to 17, 3 for trials
  18 to 23 and 1 for trials 24 to 41. The mean of the third group, trials 18 to 23, is 3.
  The running sum and counter are not reset between the intensities, so the value
  reported for that group is 2, the mean of trials 12 to 23, and the later groups are
  averaged with their predecessors in the same way.
\<close>

theorem plot_recruitment_curve_cumulative_means:
  "get_mep_size [0, 1, 0, 1, 0] = Inr 1 \<and> get_mep_size [0, 3, 0, 3, 0] = Inr 3
   \<and> plot_recruitment_curve
        (replicate 18 [0, 1, 0, 1, 0] @ replicate 6 [0, 3, 0, 3, 0] @ replicate 18 [0, 1, 0, 1, 0])
      = Inr [Some 1, Some 1, Some 2, Some (5 / 3), Some (3 / 2), Some (7 / 5)]"
  by code_simp

text \<open>
  Claim C8, as stated, asks for a defined value in place of the mean of an empty group.
  With trials 0 to 11 of size 1 and trials 12 to 17 without MEP, the division of 0 by 0
  raises and no curve is returned, not even the mean of the first group.
\<close>

theorem plot_recruitment_curve_empty_group_counterexample:
  "get_mep_size [0, 1, 0, 1, 0] = Inr 1 \<and> \<not> is_mep [0, 0, 0]
   \<and> plot_recruitment_curve
        (replicate 12 [0, 1, 0, 1, 0] @ replicate 6 [0, 0, 0] @ replicate 24 [0, 1, 0, 1, 0])
      = Inl ZeroDivisionError"
  by code_simp

text \<open>
  Claim C8, amended. For a dataset of 42 trials in which every trial with an MEP has a
  computed size, if none of the trials 0 to 11 has an MEP, or none of the trials 12 to 17
  has one, the aggregation raises \<open>ZeroDivisionError\<close> and returns no curve.
\<close>

theorem plot_recruitment_curve_empty_group:
  assumes len: "length df = 42"
    and ok: "\<forall>col\<in>set df. is_mep col \<longrightarrow> (\<exists>v. get_mep_size col = Inr v)"
    and absent: "(\<forall>i\<in>{0..<12}. \<not> is_mep (df ! i)) \<or> (\<forall>i\<in>{12..<18}. \<not> is_mep (df ! i))"
  shows "plot_recruitment_curve df = Inl ZeroDivisionError"
proof -
  from mep_sizes_loop_complete [OF ok, of "[]"] len obtain ms
    where loop: "mep_sizes_loop df [] = Inr ms" and n: "length ms = 42"
      and none: "\<forall>i<42. (ms ! i = None) = (\<not> is_mep (df ! i))"
    by auto
  have "\<forall>i\<in>set [0..<12]. 0 + i < length ms" using n by simp
  from sum_loop_in_range [OF this, of 0 0] obtain s c
    where first: "sum_loop ms 0 [0..<12] (0, 0) = Inr (s, c)" by blast
  show ?thesis
  proof (cases "c = 0")
    case True
    with loop first show ?thesis
      by (simp add: plot_recruitment_curve_def py_div_def)
  next
    case False
    have "\<not> (\<forall>i\<in>{0..<12}. \<not> is_mep (df ! i))"
    proof
      assume "\<forall>i\<in>{0..<12}. \<not> is_mep (df ! i)"
      with none have "\<forall>i\<in>set [0..<12]. 0 + i < length ms \<and> ms ! (0 + i) = None"
        using n by simp
      from sum_loop_all_absent [OF this, of 0 0] first have "c = 0" by simp
      with False show False ..
    qed
    with absent have "\<forall>i\<in>{12..<18}. \<not> is_mep (df ! i)" by blast
    with none have "\<forall>i\<in>{12..<18}. ms ! i = None" by simp
    from intensity_loop_first_group_absent [OF n this] loop first False
    show ?thesis
      by (simp add: plot_recruitment_curve_def py_div_def)
  qed
qed

theorem plot_recruitment_curve_empty_group_witness:
  "length (replicate 12 [0, 1, 0, 1, 0] @ replicate 6 [0, 0, 0] @ replicate 24 [0, 1, 0, 1, 0 :: real]) = 42
   \<and> \<not> is_mep [0, 0, 0]
   \<and> plot_recruitment_curve
        (replicate 12 [0, 1, 0, 1, 0] @ replicate 6 [0, 0, 0] @ replicate 24 [0, 1, 0, 1, 0])
      = Inl ZeroDivisionError"
proof -
  let ?df = "replicate 12 [0, 1, 0, 1, 0] @ replicate 6 [0, 0, 0] @ replicate 24 [0, 1, 0, 1, 0 :: real]"
  have len: "length ?df = 42" by simp
  have v: "get_mep_size [0, 1, 0, 1, 0] = Inr 1" by code_simp
  have z: "\<not> is_mep [0, 0, 0]" by code_simp
  have "set ?df = {[0, 1, 0, 1, 0], [0, 0, 0]}" by auto
  with v z have ok: "\<forall>col\<in>set ?df. is_mep col \<longrightarrow> (\<exists>v. get_mep_size col = Inr v)"
    by simp
  have g1: "\<forall>i\<in>{12..<18}. \<not> is_mep (?df ! i)" by code_simp
  then have "(\<forall>i\<in>{0..<12}. \<not> is_mep (?df ! i)) \<or> (\<forall>i\<in>{12..<18}. \<not> is_mep (?df ! i))" ..
  from plot_recruitment_curve_empty_group [OF len ok this] len z show ?thesis by blast
qed

end
